theory Spec2Isabelle
  imports Main "HOL-Library.Word" "HOL-Library.Sublist"
begin

section \<open>Image ingestion of the vision assistant (src/main.py)\<close>

text \<open>
  The development embeds the part of \<^verbatim>\<open>VisionAssistant\<close> that receives an image over a
  byte stream and merges it into the chat context: the stream handler defined in
  \<^verbatim>\<open>on_enter\<close> (lines 126-131) and the coroutine \<^verbatim>\<open>_image_received\<close> (lines 139-158).

  The coroutines run on one cooperative event loop. A coroutine gives up control only
  at an \<^verbatim>\<open>await\<close>: at every iteration of \<^verbatim>\<open>async for chunk in reader\<close> and inside
  \<^verbatim>\<open>await self.update_chat_ctx(chat_ctx)\<close>. Between two such points its statements run
  without interruption. The model therefore gives every task a phase (the place where
  it is suspended, with the local variables that are live there), and one function per
  resumption that runs the task up to its next suspension. A schedule is the list of
  actions the event loop performs, and \<open>exec\<close> runs it from a state.
\<close>

subsection \<open>Data\<close>

type_synonym bytes = "8 word list"

text \<open>
  A value of \<open>py_exception\<close> stands for an instance of Python's \<^verbatim>\<open>Exception\<close> class, which
  is what \<^verbatim>\<open>except Exception\<close> on line 157 catches. The string is its message.
  The cancellation of a task is not an \<^verbatim>\<open>Exception\<close> and is not modelled: nothing in the
  source cancels a task.
\<close>

datatype py_exception = Exception string

text \<open>
  What the reader delivers at one \<^verbatim>\<open>__anext__\<close>: a chunk, or an error raised
  mid-stream. The end of the stream is the end of the list of pending events.
\<close>

datatype reader_event = Chunk bytes | Raises py_exception

text \<open>
  The byte stream reader: \<open>info_name\<close> is the outcome of evaluating \<^verbatim>\<open>reader.info.name\<close>
  (the name, or the exception the attribute access raises), \<open>pending\<close> the events it
  has not delivered yet.
\<close>

record reader =
  info_name :: "py_exception + string"
  pending :: "reader_event list"

datatype content = ImageContent string | TextContent string

text \<open>
  A chat message as far as the source determines it: \<^verbatim>\<open>add_message\<close> is called with a role
  and a content list. The chat context is the list of its messages.
\<close>

record chat_message =
  role :: string
  content :: "content list"

text \<open>How a task ended: the coroutine returned, or an exception left it.\<close>

datatype outcome = Returned | Raised py_exception

text \<open>
  Where a task of \<^verbatim>\<open>_image_received\<close> stands:
  \<^item> \<open>Spawned\<close>: created by \<^verbatim>\<open>asyncio.create_task\<close>, not started yet;
  \<^item> \<open>Draining image_bytes\<close>: suspended in the \<^verbatim>\<open>async for\<close> of line 143, with the
    buffer accumulated so far;
  \<^item> \<open>Merging image_bytes chat_ctx\<close>: suspended in \<^verbatim>\<open>await self.update_chat_ctx(chat_ctx)\<close>
    of line 155, with the local snapshot that has replaced the agent's context;
  \<^item> \<open>Finished out\<close>: the task is done and its done-callback has not run yet;
  \<^item> \<open>Retired out\<close>: the done-callback of line 131 has run.
\<close>

datatype phase =
    Spawned
  | Draining bytes
  | Merging bytes "chat_message list"
  | Finished outcome
  | Retired outcome

record unit_task =
  u_reader :: reader
  participant_identity :: string
  phase :: phase

datatype log_entry =
    Info string string
  | Error py_exception
  | Printed "chat_message list"

text \<open>
  The state of the agent: \<open>chat_ctx\<close> is \<^verbatim>\<open>self.chat_ctx\<close>, \<open>tasks\<close> is the list
  \<^verbatim>\<open>self._tasks\<close> of task handles (a handle is the number of its task), \<open>units\<close> holds
  the tasks the event loop knows, \<open>next_id\<close> is the handle the next task gets, and
  \<open>logged\<close> collects what \<^verbatim>\<open>logger.info\<close>, \<^verbatim>\<open>logger.error\<close> and \<^verbatim>\<open>print\<close> wrote.
\<close>

record state =
  chat_ctx :: "chat_message list"
  tasks :: "nat list"
  units :: "nat \<Rightarrow> unit_task option"
  next_id :: nat
  logged :: "log_entry list"

definition initial_state :: state where
  "initial_state =
     \<lparr>chat_ctx = [], tasks = [], units = (\<lambda>_. None), next_id = 0, logged = []\<rparr>"

subsection \<open>The image message\<close>

text \<open>
  \<^verbatim>\<open>base64.b64encode\<close> of the standard library: the alphabet of RFC 4648, three bytes
  to four characters, padded with \<^verbatim>\<open>=\<close>. Its result is ASCII, so \<^verbatim>\<open>.decode('utf-8')\<close>
  yields the same characters.
\<close>

definition b64_alphabet :: string where
  "b64_alphabet = ''ABCDEFGHIJKLMNOPQRSTUVWXYZabcdefghijklmnopqrstuvwxyz0123456789+/''"

definition b64_char :: "nat \<Rightarrow> char" where
  "b64_char n = b64_alphabet ! (n mod 64)"

fun b64encode :: "bytes \<Rightarrow> string" where
  "b64encode (a # b # c # rest) =
     [b64_char (unat a div 4),
      b64_char ((unat a mod 4) * 16 + unat b div 16),
      b64_char ((unat b mod 16) * 4 + unat c div 64),
      b64_char (unat c mod 64)] @ b64encode rest"
| "b64encode [a, b] =
     [b64_char (unat a div 4),
      b64_char ((unat a mod 4) * 16 + unat b div 16),
      b64_char ((unat b mod 16) * 4),
      CHR ''='']"
| "b64encode [a] =
     [b64_char (unat a div 4),
      b64_char ((unat a mod 4) * 16),
      CHR ''='', CHR ''='']"
| "b64encode [] = []"

text \<open>The f-string of line 151.\<close>

definition data_url :: "bytes \<Rightarrow> string" where
  "data_url image_bytes = ''data:image/png;base64,'' @ b64encode image_bytes"

text \<open>
  \<^verbatim>\<open>ChatContext.add_message\<close> appends one message to the context it is called on.
  In the source that context is the fresh copy of line 146, so the agent's own context
  is not touched; here a context is a value and the copy is the value itself.
\<close>

definition add_message :: "chat_message list \<Rightarrow> string \<Rightarrow> content list \<Rightarrow> chat_message list" where
  "add_message ctx r c = ctx @ [\<lparr>role = r, content = c\<rparr>]"

subsection \<open>The stream handler (lines 126-131)\<close>

text \<open>
  \<^verbatim>\<open>_image_received_handler\<close> creates the task, appends its handle to \<^verbatim>\<open>self._tasks\<close>,
  registers the done-callback and returns. It has no \<^verbatim>\<open>await\<close>: the task it created
  has not run a single statement when the handler returns.
\<close>

definition image_received_handler :: "reader \<Rightarrow> string \<Rightarrow> state \<Rightarrow> state" where
  "image_received_handler r p s =
     (let task = next_id s in
      s\<lparr>units := (units s)(task \<mapsto> \<lparr>u_reader = r, participant_identity = p, phase = Spawned\<rparr>),
        tasks := tasks s @ [task],
        next_id := Suc task\<rparr>)"

subsection \<open>One resumption of \<^verbatim>\<open>_image_received\<close> (lines 139-158)\<close>

definition set_phase :: "nat \<Rightarrow> unit_task \<Rightarrow> phase \<Rightarrow> state \<Rightarrow> state" where
  "set_phase n u ph s = s\<lparr>units := (units s)(n \<mapsto> u\<lparr>phase := ph\<rparr>)\<rparr>"

definition write_log :: "log_entry \<Rightarrow> state \<Rightarrow> state" where
  "write_log e s = s\<lparr>logged := logged s @ [e]\<rparr>"

text \<open>
  The event loop resumes task \<open>n\<close>, which runs to its next suspension:
  \<^item> from \<open>Spawned\<close>, line 140 evaluates \<^verbatim>\<open>reader.info.name\<close> outside the \<^verbatim>\<open>try\<close>: an
    exception there leaves the coroutine; otherwise the line is logged, the buffer is
    set to \<^verbatim>\<open>bytes()\<close> and the task waits for the first chunk;
  \<^item> from \<open>Draining\<close>, a chunk is appended to the buffer (line 144); an exception of
    the reader is caught on line 157 and logged, and the coroutine returns; at the end
    of the stream lines 146-154 build the snapshot from the current context, line 155
    calls \<^verbatim>\<open>update_chat_ctx\<close>, which makes the snapshot the agent's context, and the
    task waits in that call;
  \<^item> from \<open>Merging\<close>, \<^verbatim>\<open>update_chat_ctx\<close> returns, line 156 prints the context the
    agent has then, and the coroutine returns;
  \<^item> a finished task is not resumed.

  There is no \<^verbatim>\<open>await\<close> between the copy of line 146 and the call of line 155, and
  \<^verbatim>\<open>update_chat_ctx\<close>, a coroutine of the agent framework, assigns the agent's context
  before it first suspends. So the copy, the append and the replacement happen in one
  resumption, and no other task runs between them.
\<close>

definition image_received :: "nat \<Rightarrow> state \<Rightarrow> state" where
  "image_received n s =
     (case units s n of
        None \<Rightarrow> s
      | Some u \<Rightarrow>
          (case phase u of
             Spawned \<Rightarrow>
               (case info_name (u_reader u) of
                  Inl e \<Rightarrow> set_phase n u (Finished (Raised e)) s
                | Inr name \<Rightarrow>
                    write_log (Info (participant_identity u) name)
                      (set_phase n u (Draining []) s))
           | Draining image_bytes \<Rightarrow>
               (case pending (u_reader u) of
                  [] \<Rightarrow>
                    (let ctx = add_message (chat_ctx s) ''user''
                                 [ImageContent (data_url image_bytes)]
                     in set_phase n u (Merging image_bytes ctx) (s\<lparr>chat_ctx := ctx\<rparr>))
                | ev # rest \<Rightarrow>
                    (case ev of
                       Chunk chunk \<Rightarrow>
                         set_phase n (u\<lparr>u_reader := (u_reader u)\<lparr>pending := rest\<rparr>\<rparr>)
                           (Draining (image_bytes @ chunk)) s
                     | Raises e \<Rightarrow>
                         write_log (Error e)
                           (set_phase n (u\<lparr>u_reader := (u_reader u)\<lparr>pending := rest\<rparr>\<rparr>)
                              (Finished Returned) s)))
           | Merging image_bytes ctx \<Rightarrow>
               write_log (Printed (chat_ctx s)) (set_phase n u (Finished Returned) s)
           | Finished out \<Rightarrow> s
           | Retired out \<Rightarrow> s))"

text \<open>
  \<^verbatim>\<open>update_chat_ctx\<close> may raise instead of returning, while the task is suspended in it.
  The exception arrives inside the \<^verbatim>\<open>try\<close>, is logged on line 158, and the coroutine
  returns. \<^verbatim>\<open>self.chat_ctx\<close> was assigned before the task was suspended and stays as it
  is. What the framework awaits after the assignment is the replacement of the context
  in its own session: \<open>replaced\<close> says whether that had happened when the call raised,
  and the state of the agent is the same in both cases.
\<close>

definition update_chat_ctx_raises :: "nat \<Rightarrow> py_exception \<Rightarrow> bool \<Rightarrow> state \<Rightarrow> state" where
  "update_chat_ctx_raises n e replaced s =
     (case units s n of
        None \<Rightarrow> s
      | Some u \<Rightarrow>
          (case phase u of
             Merging image_bytes ctx \<Rightarrow>
               write_log (Error e) (set_phase n u (Finished Returned) s)
           | _ \<Rightarrow> s))"

subsection \<open>The done-callback (line 131)\<close>

text \<open>
  \<^verbatim>\<open>list.remove\<close> deletes the first occurrence of the handle and raises
  \<^verbatim>\<open>ValueError\<close> when there is none.
\<close>

definition list_remove :: "nat list \<Rightarrow> nat \<Rightarrow> py_exception + nat list" where
  "list_remove xs x =
     (if x \<in> set xs then Inr (remove1 x xs)
      else Inl (Exception ''list.remove(x): x not in list''))"

text \<open>
  The event loop calls the callback once the task is done, whatever its outcome. An
  exception of the callback goes to the loop's exception handler and changes nothing
  in the agent.
\<close>

definition done_callback :: "nat \<Rightarrow> state \<Rightarrow> state" where
  "done_callback n s =
     (case units s n of
        None \<Rightarrow> s
      | Some u \<Rightarrow>
          (case phase u of
             Finished out \<Rightarrow>
               (case list_remove (tasks s) n of
                  Inr ts \<Rightarrow> set_phase n u (Retired out) (s\<lparr>tasks := ts\<rparr>)
                | Inl e \<Rightarrow> set_phase n u (Retired out) s)
           | _ \<Rightarrow> s))"

subsection \<open>Schedules\<close>

text \<open>
  What the event loop can do next: call the handler that line 133 registered for the
  channel \<^verbatim>\<open>test\<close> with a new stream, resume a task, let the pending
  \<^verbatim>\<open>update_chat_ctx\<close> of a task raise, or run the done-callback of a task.
\<close>

datatype action =
    New_stream reader string
  | Resume nat
  | Update_raises nat py_exception bool
  | Done_callback nat

fun step :: "action \<Rightarrow> state \<Rightarrow> state" where
  "step (New_stream r p) s = image_received_handler r p s"
| "step (Resume n) s = image_received n s"
| "step (Update_raises n e replaced) s = update_chat_ctx_raises n e replaced s"
| "step (Done_callback n) s = done_callback n s"

fun exec :: "action list \<Rightarrow> state \<Rightarrow> state" where
  "exec [] s = s"
| "exec (a # as) s = exec as (step a s)"

text \<open>The task an action runs in, if any.\<close>

fun target :: "action \<Rightarrow> nat option" where
  "target (New_stream r p) = None"
| "target (Resume n) = Some n"
| "target (Update_raises n e replaced) = Some n"
| "target (Done_callback n) = Some n"

subsection \<open>Notions for the statements\<close>

definition phase_of :: "state \<Rightarrow> nat \<Rightarrow> phase option" where
  "phase_of s n = map_option phase (units s n)"

text \<open>The message lines 147-154 build for a payload.\<close>

definition image_message :: "bytes \<Rightarrow> chat_message" where
  "image_message image_bytes = \<lparr>role = ''user'', content = [ImageContent (data_url image_bytes)]\<rparr>"

text \<open>A task that has not finished is suspended in its loop or waits to be started.\<close>

definition waiting :: "unit_task \<Rightarrow> bool" where
  "waiting u = (case phase u of Spawned \<Rightarrow> True | Draining b \<Rightarrow> True | _ \<Rightarrow> False)"

text \<open>
  Task \<open>n\<close> has received every chunk of its stream, holds the payload \<open>b\<close>, and will
  find the end of the stream at its next resumption.
\<close>

definition drained :: "state \<Rightarrow> nat \<Rightarrow> bytes \<Rightarrow> bool" where
  "drained s n b =
     (case units s n of
        None \<Rightarrow> False
      | Some u \<Rightarrow> phase u = Draining b \<and> pending (u_reader u) = [])"

text \<open>
  Task \<open>n\<close> has been created for a reader with a readable name that delivers exactly
  the chunks \<open>cs\<close>, and has not started.
\<close>

definition spawned_for :: "state \<Rightarrow> nat \<Rightarrow> bytes list \<Rightarrow> bool" where
  "spawned_for s n cs =
     (n < next_id s \<and>
      (case units s n of
         None \<Rightarrow> False
       | Some u \<Rightarrow>
           phase u = Spawned \<and> pending (u_reader u) = map Chunk cs \<and>
           (case info_name (u_reader u) of Inl e \<Rightarrow> False | Inr name \<Rightarrow> True)))"

text \<open>The reader raises before its stream ends.\<close>

fun raises_ahead :: "reader_event list \<Rightarrow> bool" where
  "raises_ahead [] = False"
| "raises_ahead (Chunk c # es) = raises_ahead es"
| "raises_ahead (Raises e # es) = True"

text \<open>
  A task that cannot come to \<^verbatim>\<open>update_chat_ctx\<close> any more: its reader raises before the
  end of the stream, or the task is done.
\<close>

definition never_merges :: "unit_task \<Rightarrow> bool" where
  "never_merges u =
     (case phase u of
        Spawned \<Rightarrow> raises_ahead (pending (u_reader u))
      | Draining b \<Rightarrow> raises_ahead (pending (u_reader u))
      | Merging b c \<Rightarrow> False
      | Finished out \<Rightarrow> True
      | Retired out \<Rightarrow> True)"

definition doomed :: "state \<Rightarrow> nat \<Rightarrow> bool" where
  "doomed s n =
     (n < next_id s \<and> (case units s n of None \<Rightarrow> False | Some u \<Rightarrow> never_merges u))"

text \<open>
  Two states that agree on the context and on every task but \<open>n\<close>; and two states
  that agree on task \<open>n\<close> and on how often its handle is in the task list.
\<close>

definition same_but :: "nat \<Rightarrow> state \<Rightarrow> state \<Rightarrow> bool" where
  "same_but n s t =
     (chat_ctx s = chat_ctx t \<and> next_id s = next_id t
      \<and> (\<forall>m. m \<noteq> n \<longrightarrow> units s m = units t m))"

definition same_unit :: "nat \<Rightarrow> state \<Rightarrow> state \<Rightarrow> bool" where
  "same_unit n s t =
     (units s n = units t n \<and> count_list (tasks s) n = count_list (tasks t) n
      \<and> n < next_id t)"

subsection \<open>Example streams\<close>

text \<open>
  Concrete readers for the evaluated instances below: one delivers \<^verbatim>\<open>b"\x89P"\<close> and
  \<^verbatim>\<open>b"NG"\<close>, one a single chunk, one raises after its first chunk, one ends at once,
  and one has no readable name.
\<close>

definition reader_a :: reader where
  "reader_a = \<lparr>info_name = Inr ''a.png'', pending = [Chunk [0x89, 0x50], Chunk [0x4E, 0x47]]\<rparr>"

definition reader_b :: reader where
  "reader_b = \<lparr>info_name = Inr ''b.png'', pending = [Chunk [1, 2, 3]]\<rparr>"

definition reader_failing :: reader where
  "reader_failing =
     \<lparr>info_name = Inr ''c.png'', pending = [Chunk [1], Raises (Exception ''stream closed'')]\<rparr>"

definition reader_empty :: reader where
  "reader_empty = \<lparr>info_name = Inr ''e.png'', pending = []\<rparr>"

definition reader_nameless :: reader where
  "reader_nameless = \<lparr>info_name = Inl (Exception ''no stream info''), pending = []\<rparr>"

text \<open>The agent after the handler has been called for two streams.\<close>

definition two_streams :: state where
  "two_streams = exec [New_stream reader_a ''A'', New_stream reader_b ''B''] initial_state"

text \<open>
  Two schedules for these two streams. In the first the chunks alternate, and the
  second task finds the end of its stream while the first is still suspended in
  \<^verbatim>\<open>update_chat_ctx\<close>. In the second the second stream ends while the first is still
  being received; then both tasks return and both done-callbacks run.
\<close>

definition overlapping_schedule :: "action list" where
  "overlapping_schedule =
     [Resume 0, Resume 1, Resume 0, Resume 1, Resume 0,
      Resume 0, Resume 1, Resume 0, Resume 1]"


text \<open>One task that has received \<^verbatim>\<open>b"\x89PNG"\<close> in two chunks.\<close>

definition drained_png :: state where
  "drained_png = exec [New_stream reader_a ''A'', Resume 0, Resume 0, Resume 0] initial_state"

text \<open>One task in the middle of a transfer that is about to fail.\<close>

definition mid_transfer :: state where
  "mid_transfer = exec [New_stream reader_failing ''C'', Resume 0, Resume 0] initial_state"

text \<open>One task suspended in \<^verbatim>\<open>update_chat_ctx\<close>.\<close>

definition about_to_swap :: state where
  "about_to_swap = exec [New_stream reader_empty ''E'', Resume 0, Resume 0] initial_state"

text \<open>
  A good stream (task 0) and a failing one (task 1), and a schedule that interleaves
  them and runs the done-callback of the failing task.
\<close>

definition failing_start :: state where
  "failing_start =
     exec [New_stream reader_a ''A'', New_stream reader_failing ''C''] initial_state"

definition failing_schedule :: "action list" where
  "failing_schedule =
     [Resume 0, Resume 1, Resume 0, Resume 1, Resume 0, Resume 1, Resume 0, Done_callback 1,
      Resume 0]"

section \<open>How a single task moves\<close>

lemmas unit_defs = image_received_def update_chat_ctx_raises_def done_callback_def
  image_received_handler_def set_phase_def write_log_def Let_def

lemmas all_splits = option.splits phase.splits sum.splits list.splits reader_event.splits

lemma exec_append: "exec (xs @ ys) s = exec ys (exec xs s)"
  by (induction xs arbitrary: s) simp_all

lemma next_id_step: "next_id s \<le> next_id (step act s)"
  by (cases act)
     (auto simp: unit_defs Let_def
        split: option.splits phase.splits sum.splits list.splits reader_event.splits)

text \<open>
  The coroutine frame of a task is its own: while the task is draining its reader,
  no action but its own resumption changes it.
\<close>

lemma units_step_not_resume:
  assumes "units s a = Some u" and "waiting u" and "a < next_id s" and "act \<noteq> Resume a"
  shows "units (step act s) a = Some u"
  using assms
  by (cases act)
     (auto simp: unit_defs waiting_def Let_def
        split: option.splits phase.splits sum.splits list.splits reader_event.splits)

lemma resume_spawned:
  assumes "units s a = Some \<lparr>u_reader = r, participant_identity = p, phase = Spawned\<rparr>"
    and "info_name r = Inr nm"
  shows "units (step (Resume a) s) a =
           Some \<lparr>u_reader = r, participant_identity = p, phase = Draining []\<rparr>"
    and "next_id (step (Resume a) s) = next_id s"
    and "chat_ctx (step (Resume a) s) = chat_ctx s"
  using assms by (simp_all add: unit_defs)

lemma resume_chunk:
  assumes "units s a = Some u" and "phase u = Draining buf"
    and "pending (u_reader u) = Chunk c # rest"
  shows "units (step (Resume a) s) a =
           Some (u\<lparr>u_reader := (u_reader u)\<lparr>pending := rest\<rparr>, phase := Draining (buf @ c)\<rparr>)"
    and "next_id (step (Resume a) s) = next_id s"
    and "chat_ctx (step (Resume a) s) = chat_ctx s"
  using assms by (simp_all add: unit_defs)

lemma resume_end_of_stream:
  assumes "units s a = Some u" and "phase u = Draining buf" and "pending (u_reader u) = []"
  shows "units (step (Resume a) s) a =
           Some (u\<lparr>phase := Merging buf
                   (chat_ctx s @ [\<lparr>role = ''user'', content = [ImageContent (data_url buf)]\<rparr>])\<rparr>)"
    and "chat_ctx (step (Resume a) s) =
           chat_ctx s @ [\<lparr>role = ''user'', content = [ImageContent (data_url buf)]\<rparr>]"
    and "next_id (step (Resume a) s) = next_id s"
    and "m \<noteq> a \<Longrightarrow> units (step (Resume a) s) m = units s m"
  using assms by (simp_all add: unit_defs add_message_def Let_def)

lemma resume_merging:
  assumes "units s a = Some u" and "phase u = Merging buf ctx"
  shows "units (step (Resume a) s) a = Some (u\<lparr>phase := Finished Returned\<rparr>)"
    and "chat_ctx (step (Resume a) s) = chat_ctx s"
    and "next_id (step (Resume a) s) = next_id s"
    and "m \<noteq> a \<Longrightarrow> units (step (Resume a) s) m = units s m"
  using assms by (simp_all add: unit_defs)

text \<open>
  The buffer of a draining task after \<open>k\<close> of its resumptions, whatever else the
  event loop ran in between: the first \<open>k\<close> chunks of its reader, in order.
\<close>

lemma drain_interleaved:
  assumes "units s a = Some u" and "phase u = Draining buf"
    and "pending (u_reader u) = map Chunk cs @ later" and "a < next_id s"
    and "count_list acts (Resume a) = k" and "k \<le> length cs"
  shows "units (exec acts s) a =
           Some (u\<lparr>u_reader := (u_reader u)\<lparr>pending := map Chunk (drop k cs) @ later\<rparr>,
                   phase := Draining (buf @ concat (take k cs))\<rparr>)
         \<and> a < next_id (exec acts s)"
  using assms
proof (induction acts arbitrary: s u buf cs k)
  case Nil
  then show ?case by simp
next
  case (Cons act acts)
  show ?case
  proof (cases "act = Resume a")
    case True
    with Cons.prems obtain k' where k: "k = Suc k'" and k': "count_list acts (Resume a) = k'"
      by auto
    with Cons.prems obtain c cs' where cs: "cs = c # cs'"
      by (cases cs) auto
    let ?u = "u\<lparr>u_reader := (u_reader u)\<lparr>pending := map Chunk cs' @ later\<rparr>,
                phase := Draining (buf @ c)\<rparr>"
    have u': "units (step act s) a = Some ?u" and n': "a < next_id (step act s)"
      using Cons.prems True cs resume_chunk [of s a u buf c "map Chunk cs' @ later"] by simp_all
    have "units (exec acts (step act s)) a =
           Some (?u\<lparr>u_reader := (u_reader ?u)\<lparr>pending := map Chunk (drop k' cs') @ later\<rparr>,
                   phase := Draining ((buf @ c) @ concat (take k' cs'))\<rparr>)
         \<and> a < next_id (exec acts (step act s))"
      using Cons.prems k cs
      by (intro Cons.IH [OF u' _ _ n' k']) simp_all
    then show ?thesis
      by (simp add: k cs)
  next
    case False
    have u': "units (step act s) a = Some u"
      using Cons.prems False by (intro units_step_not_resume) (simp_all add: waiting_def)
    have n': "a < next_id (step act s)"
      using Cons.prems(4) next_id_step [of s act] by simp
    from False Cons.prems have k': "count_list acts (Resume a) = k" by simp
    show ?thesis
      using Cons.IH [OF u' Cons.prems(2) Cons.prems(3) n' k' Cons.prems(6)] by simp
  qed
qed

lemma unit_after_chunks:
  assumes "units s a = Some \<lparr>u_reader = r, participant_identity = p, phase = Spawned\<rparr>"
    and "info_name r = Inr nm" and "pending r = map Chunk cs @ later" and "a < next_id s"
    and "count_list acts (Resume a) = Suc k" and "k \<le> length cs"
  shows "units (exec acts s) a =
           Some \<lparr>u_reader = r\<lparr>pending := map Chunk (drop k cs) @ later\<rparr>,
                 participant_identity = p, phase = Draining (concat (take k cs))\<rparr>"
  using assms
proof (induction acts arbitrary: s)
  case Nil
  then show ?case by simp
next
  case (Cons act acts)
  show ?case
  proof (cases "act = Resume a")
    case True
    let ?u = "\<lparr>u_reader = r, participant_identity = p, phase = Draining []\<rparr>"
    have u': "units (step act s) a = Some ?u" and n': "a < next_id (step act s)"
      using Cons.prems True resume_spawned [of s a r p nm] by simp_all
    have k': "count_list acts (Resume a) = k"
      using Cons.prems True by simp
    have "units (exec acts (step act s)) a =
            Some (?u\<lparr>u_reader := (u_reader ?u)\<lparr>pending := map Chunk (drop k cs) @ later\<rparr>,
                    phase := Draining ([] @ concat (take k cs))\<rparr>)"
      using drain_interleaved [OF u' _ _ n' k', of "[]" cs later] Cons.prems by simp
    then show ?thesis by simp
  next
    case False
    have u': "units (step act s) a = Some \<lparr>u_reader = r, participant_identity = p, phase = Spawned\<rparr>"
      using Cons.prems False by (intro units_step_not_resume) (simp_all add: waiting_def)
    have n': "a < next_id (step act s)"
      using Cons.prems(4) next_id_step [of s act] by simp
    from False Cons.prems have k': "count_list acts (Resume a) = Suc k" by simp
    show ?thesis
      using Cons.IH [OF u' Cons.prems(2) Cons.prems(3) n' k' Cons.prems(6)] by simp
  qed
qed


lemma tasks_resume: "tasks (image_received n s) = tasks s"
  by (auto simp: unit_defs split: all_splits)

lemma tasks_resumes: "tasks (exec (replicate k (Resume n)) s) = tasks s"
  by (induction k arbitrary: s) (simp_all add: tasks_resume)

lemma handler_facts:
  "tasks (image_received_handler r p s) = tasks s @ [next_id s]"
  "next_id (image_received_handler r p s) = Suc (next_id s)"
  "units (image_received_handler r p s) =
     (units s)(next_id s \<mapsto> \<lparr>u_reader = r, participant_identity = p, phase = Spawned\<rparr>)"
  "chat_ctx (image_received_handler r p s) = chat_ctx s"
  "logged (image_received_handler r p s) = logged s"
  by (simp_all add: image_received_handler_def Let_def)

subsection \<open>Lists of handles\<close>

lemma count_list_replicate_same: "count_list (replicate k x) x = k"
  by (induction k) simp_all

lemma count_list_remove1_other: "m \<noteq> n \<Longrightarrow> count_list (remove1 m xs) n = count_list xs n"
  by (induction xs) auto

lemma count_list_remove1_same: "count_list (remove1 n xs) n = count_list xs n - 1"
  by (induction xs) auto

lemma in_set_count_list: "x \<in> set xs \<longleftrightarrow> 0 < count_list xs x"
  by (induction xs) auto

section \<open>What the merges add to the context\<close>

lemma next_id_exec: "next_id s \<le> next_id (exec acts s)"
proof (induction acts arbitrary: s)
  case Nil
  show ?case by simp
next
  case (Cons act acts)
  show ?case
    using next_id_step [of s act] Cons.IH [of "step act s"] by simp
qed

text \<open>Only the end of a stream changes the context, and it appends one message.\<close>

lemma ctx_not_resume: "(\<forall>n. act \<noteq> Resume n) \<Longrightarrow> chat_ctx (step act s) = chat_ctx s"
  by (cases act) (auto simp: unit_defs split: all_splits)

lemma ctx_resume_drained:
  "drained s n b \<Longrightarrow> chat_ctx (image_received n s) = chat_ctx s @ [image_message b]"
  by (auto simp: drained_def unit_defs add_message_def image_message_def split: all_splits)

lemma ctx_resume_not_drained:
  "(\<forall>b. \<not> drained s n b) \<Longrightarrow> chat_ctx (image_received n s) = chat_ctx s"
  by (auto simp: drained_def unit_defs split: all_splits)

lemma ctx_resume_grows: "\<exists>extra. chat_ctx (image_received n s) = chat_ctx s @ extra"
  by (auto simp: unit_defs add_message_def split: all_splits)

text \<open>A task that has left its loop does not come back to it.\<close>

lemma units_step_other:
  assumes "n < next_id s" and "target act \<noteq> Some n"
  shows "units (step act s) n = units s n"
  using assms
  by (cases act) (auto simp: unit_defs split: all_splits)

lemma left_loop_step:
  assumes "units s n = Some u" and "\<not> waiting u" and "n < next_id s"
  shows "\<exists>u'. units (step act s) n = Some u' \<and> \<not> waiting u'"
proof (cases "target act = Some n")
  case False
  then show ?thesis
    using assms units_step_other [of n s act] by simp
next
  case True
  then consider "act = Resume n" | e b where "act = Update_raises n e b" | "act = Done_callback n"
    by (cases act) auto
  then show ?thesis
  proof cases
    case 1
    with assms show ?thesis
      by (cases "phase u") (simp_all add: unit_defs waiting_def)
  next
    case 2
    with assms show ?thesis
      by (cases "phase u") (simp_all add: unit_defs waiting_def)
  next
    case 3
    with assms show ?thesis
      by (cases "phase u")
         (simp_all add: unit_defs waiting_def list_remove_def split: sum.splits)
  qed
qed

lemma not_waiting_not_drained:
  "units s n = Some u \<Longrightarrow> \<not> waiting u \<Longrightarrow> \<not> drained s n b"
  by (auto simp: drained_def waiting_def split: phase.splits)

lemma spawned_forE:
  assumes "spawned_for s n cs"
  obtains r p nm where "units s n = Some \<lparr>u_reader = r, participant_identity = p, phase = Spawned\<rparr>"
    and "info_name r = Inr nm" and "pending r = map Chunk cs" and "n < next_id s"
proof -
  from assms obtain u where u: "units s n = Some u" "phase u = Spawned"
    "pending (u_reader u) = map Chunk cs" "n < next_id s"
    and "\<exists>nm. info_name (u_reader u) = Inr nm"
    by (auto simp: spawned_for_def split: option.splits sum.splits)
  then obtain nm where nm: "info_name (u_reader u) = Inr nm" by blast
  have "u = \<lparr>u_reader = u_reader u, participant_identity = participant_identity u, phase = Spawned\<rparr>"
    using u(2) by (cases u) simp
  with u nm that show thesis by metis
qed

text \<open>
  Where a task stands after \<open>k\<close> of its resumptions, whatever ran in between: before
  it has received all chunks it is not at the end of its stream; after the start
  and one resumption per chunk it is, with the whole payload; after one more it has
  left the loop.
\<close>

lemma not_started:
  assumes "units s n = Some u" and "waiting u" and "n < next_id s"
    and "count_list acts (Resume n) = 0"
  shows "units (exec acts s) n = Some u"
  using assms
proof (induction acts arbitrary: s)
  case Nil
  then show ?case by simp
next
  case (Cons act acts)
  then have ne: "act \<noteq> Resume n" and c: "count_list acts (Resume n) = 0"
    by (auto split: if_splits)
  have u': "units (step act s) n = Some u"
    using Cons.prems(1-3) ne by (rule units_step_not_resume)
  have n': "n < next_id (step act s)"
    using Cons.prems(3) next_id_step [of s act] by simp
  show ?case
    using Cons.IH [OF u' Cons.prems(2) n' c] by simp
qed

lemma early_not_drained:
  assumes "spawned_for s n cs" and "count_list acts (Resume n) \<le> length cs"
  shows "\<not> drained (exec acts s) n b"
proof -
  from assms(1) obtain r p nm where
    u: "units s n = Some \<lparr>u_reader = r, participant_identity = p, phase = Spawned\<rparr>"
    and i: "info_name r = Inr nm" and c: "pending r = map Chunk cs" and n: "n < next_id s"
    by (rule spawned_forE)
  show ?thesis
  proof (cases "count_list acts (Resume n)")
    case 0
    have "units (exec acts s) n =
        Some \<lparr>u_reader = r, participant_identity = p, phase = Spawned\<rparr>"
      using u _ n 0 by (rule not_started) (simp add: waiting_def)
    then show ?thesis by (simp add: drained_def)
  next
    case (Suc k)
    with assms(2) have k: "k < length cs" by simp
    have "units (exec acts s) n =
        Some \<lparr>u_reader = r\<lparr>pending := map Chunk (drop k cs) @ []\<rparr>, participant_identity = p,
              phase = Draining (concat (take k cs))\<rparr>"
      using u i _ n Suc by (rule unit_after_chunks) (use c k in simp_all)
    with k show ?thesis by (simp add: drained_def)
  qed
qed

lemma drained_after_chunks:
  assumes "spawned_for s n cs" and "count_list acts (Resume n) = Suc (length cs)"
  shows "drained (exec acts s) n (concat cs)"
proof -
  from assms(1) obtain r p nm where
    u: "units s n = Some \<lparr>u_reader = r, participant_identity = p, phase = Spawned\<rparr>"
    and i: "info_name r = Inr nm" and c: "pending r = map Chunk cs" and n: "n < next_id s"
    by (rule spawned_forE)
  have "units (exec acts s) n =
      Some \<lparr>u_reader = r\<lparr>pending := map Chunk (drop (length cs) cs) @ []\<rparr>,
            participant_identity = p, phase = Draining (concat (take (length cs) cs))\<rparr>"
    using u i _ n assms(2) by (rule unit_after_chunks) (use c in simp_all)
  then show ?thesis by (simp add: drained_def)
qed

lemma left_loop_after_merge:
  assumes "spawned_for s n cs" and "length cs + 2 \<le> count_list acts (Resume n)"
  shows "\<exists>u. units (exec acts s) n = Some u \<and> \<not> waiting u"
  using assms(2)
proof (induction acts rule: rev_induct)
  case Nil
  then show ?case by simp
next
  case (snoc x acts)
  have n: "n < next_id (exec acts s)"
    using assms(1) next_id_exec [of s acts] by (simp add: spawned_for_def)
  show ?case
  proof (cases "length cs + 2 \<le> count_list acts (Resume n)")
    case True
    then obtain u where "units (exec acts s) n = Some u" and "\<not> waiting u"
      using snoc.IH by blast
    then show ?thesis
      using left_loop_step [of "exec acts s" n u x] n by (simp add: exec_append)
  next
    case False
    with snoc.prems have x: "x = Resume n" and k: "count_list acts (Resume n) = Suc (length cs)"
      by (auto split: if_splits)
    from drained_after_chunks [OF assms(1) k]
    show ?thesis
      unfolding x
      by (auto simp: exec_append drained_def unit_defs waiting_def split: option.splits)
  qed
qed

text \<open>
  The messages the context has gained after any schedule: every task of \<open>ns\<close> that
  has been resumed past the end of its stream has put its message there once, at a
  place of its own; and when no other task was resumed, nothing else was added.
\<close>

lemma merges_in_context:
  assumes "\<forall>n\<in>set ns. spawned_for s n (cs n)"
  shows "\<exists>ms suf.
           distinct ms
           \<and> set ms = {n \<in> set ns. length (cs n) + 2 \<le> count_list acts (Resume n)}
           \<and> chat_ctx (exec acts s) = chat_ctx s @ suf
           \<and> subseq (map (\<lambda>n. image_message (concat (cs n))) ms) suf
           \<and> ((\<forall>m. Resume m \<in> set acts \<longrightarrow> m \<in> set ns) \<longrightarrow>
                suf = map (\<lambda>n. image_message (concat (cs n))) ms)"
proof (induction acts rule: rev_induct)
  case Nil
  show ?case by simp
next
  case (snoc x acts)
  let ?msg = "\<lambda>n. image_message (concat (cs n))"
  let ?t = "exec acts s"
  let ?merged = "\<lambda>as. {n \<in> set ns. length (cs n) + 2 \<le> count_list as (Resume n)}"
  from snoc.IH obtain ms suf where d: "distinct ms" and m: "set ms = ?merged acts"
    and c: "chat_ctx ?t = chat_ctx s @ suf" and sub: "subseq (map ?msg ms) suf"
    and only: "(\<forall>m. Resume m \<in> set acts \<longrightarrow> m \<in> set ns) \<longrightarrow> suf = map ?msg ms"
    by blast
  have e: "exec (acts @ [x]) s = step x ?t"
    by (simp add: exec_append)
  show ?case
  proof (cases "\<exists>n. x = Resume n")
    case False
    then have ne: "\<And>n. x \<noteq> Resume n" by blast
    have c': "chat_ctx (step x ?t) = chat_ctx s @ suf"
      using c ctx_not_resume [of x ?t] ne by simp
    have mer: "?merged (acts @ [x]) = ?merged acts"
      by (simp add: ne)
    have only': "(\<forall>m. Resume m \<in> set (acts @ [x]) \<longrightarrow> m \<in> set ns) \<longrightarrow> suf = map ?msg ms"
      using only by simp
    show ?thesis
      unfolding e mer using d m c' sub only'
      by (intro exI [of _ ms] exI [of _ suf]) simp
  next
    case True
    then obtain n where x: "x = Resume n" by blast
    show ?thesis
    proof (cases "n \<in> set ns")
      case False
      obtain extra where ex: "chat_ctx (step x ?t) = chat_ctx ?t @ extra"
        unfolding x using ctx_resume_grows [of n ?t] by auto
      have mer: "?merged (acts @ [x]) = ?merged acts"
        using False by (auto simp: x)
      have sub': "subseq (map ?msg ms) (suf @ extra)"
        using list_emb_append_mono [OF sub, of "[]" extra] by simp
      have only': "(\<forall>m. Resume m \<in> set (acts @ [x]) \<longrightarrow> m \<in> set ns) \<longrightarrow>
          suf @ extra = map ?msg ms"
        using False x by auto
      show ?thesis
        unfolding e mer using d m c ex sub' only'
        by (intro exI [of _ ms] exI [of _ "suf @ extra"]) simp
    next
      case inns: True
      then have sp: "spawned_for s n (cs n)" using assms by blast
      show ?thesis
      proof (cases "count_list acts (Resume n) = Suc (length (cs n))")
        case True
        have "drained ?t n (concat (cs n))"
          using sp True by (rule drained_after_chunks)
        then have c': "chat_ctx (step x ?t) = chat_ctx s @ (suf @ [?msg n])"
          unfolding x using c by (simp add: ctx_resume_drained)
        have notin: "n \<notin> set ms"
          using m True by simp
        have mer: "?merged (acts @ [x]) = insert n (?merged acts)"
          using True inns by (auto simp: x)
        have sub': "subseq (map ?msg (ms @ [n])) (suf @ [?msg n])"
          using list_emb_append_mono [OF sub, of "[?msg n]" "[?msg n]"] by simp
        have only': "(\<forall>m. Resume m \<in> set (acts @ [x]) \<longrightarrow> m \<in> set ns) \<longrightarrow>
            suf @ [?msg n] = map ?msg (ms @ [n])"
          using only by simp
        show ?thesis
          unfolding e mer using d notin m c' sub' only'
          by (intro exI [of _ "ms @ [n]"] exI [of _ "suf @ [?msg n]"]) simp
      next
        case False
        have nd: "\<forall>b. \<not> drained ?t n b"
        proof (cases "count_list acts (Resume n) \<le> length (cs n)")
          case True
          with sp show ?thesis by (simp add: early_not_drained)
        next
          case late: False
          with False have "length (cs n) + 2 \<le> count_list acts (Resume n)" by simp
          with sp obtain u where "units ?t n = Some u" and "\<not> waiting u"
            using left_loop_after_merge by blast
          then show ?thesis by (simp add: not_waiting_not_drained)
        qed
        then have c': "chat_ctx (step x ?t) = chat_ctx s @ suf"
          unfolding x using c by (simp add: ctx_resume_not_drained)
        have mer: "?merged (acts @ [x]) = ?merged acts"
          using False by (auto simp: x)
        have only': "(\<forall>m. Resume m \<in> set (acts @ [x]) \<longrightarrow> m \<in> set ns) \<longrightarrow> suf = map ?msg ms"
          using only by simp
        show ?thesis
          unfolding e mer using d m c' sub only'
          by (intro exI [of _ ms] exI [of _ suf]) simp
      qed
    qed
  qed
qed



section \<open>A task whose reader raises\<close>

lemma raises_ahead_chunks: "raises_ahead (map Chunk cs @ Raises e # rest)"
  by (induction cs) simp_all

lemma doomed_step: "doomed s n \<Longrightarrow> doomed (step act s) n"
  by (cases act)
     (auto simp: doomed_def never_merges_def unit_defs Let_def split: all_splits)

text \<open>
  The steps of such a task do not reach the context or another task, so the rest of
  the system runs as if they had not happened.
\<close>

lemma same_but_own:
  assumes "same_but n s t" and "doomed s n" and "target act = Some n"
  shows "same_but n (step act s) t"
  using assms
  by (cases act)
     (auto simp: same_but_def doomed_def never_merges_def unit_defs Let_def split: all_splits)

lemma same_but_other:
  assumes "same_but n s t" and "doomed s n" and "target act \<noteq> Some n"
  shows "same_but n (step act s) (step act t)"
proof (cases act)
  case (New_stream r p)
  with assms show ?thesis
    by (auto simp: same_but_def doomed_def unit_defs Let_def)
next
  case (Resume m)
  with assms have "m \<noteq> n" by simp
  with assms Resume show ?thesis
    by (auto simp: same_but_def unit_defs split: all_splits)
next
  case (Update_raises m e b)
  with assms have "m \<noteq> n" by simp
  with assms Update_raises show ?thesis
    by (auto simp: same_but_def unit_defs split: all_splits)
next
  case (Done_callback m)
  with assms have "m \<noteq> n" by simp
  with assms Done_callback show ?thesis
    by (auto simp: same_but_def unit_defs split: all_splits)
qed

lemma same_but_exec:
  assumes "same_but n s t" and "doomed s n"
  shows "same_but n (exec acts s) (exec (filter (\<lambda>x. target x \<noteq> Some n) acts) t)"
  using assms
proof (induction acts arbitrary: s t)
  case Nil
  then show ?case by simp
next
  case (Cons act acts)
  show ?case
  proof (cases "target act = Some n")
    case True
    then show ?thesis
      using Cons.IH [OF same_but_own [OF Cons.prems True] doomed_step [OF Cons.prems(2)]]
      by simp
  next
    case False
    then show ?thesis
      using Cons.IH [OF same_but_other [OF Cons.prems False] doomed_step [OF Cons.prems(2)]]
      by simp
  qed
qed

text \<open>
  In the other direction, the task does not read the context before it fails, so it
  runs as if it were alone.
\<close>

lemma same_unit_other:
  assumes "same_unit n s t" and "doomed s n" and "target act \<noteq> Some n"
  shows "same_unit n (step act s) t"
proof (cases act)
  case (New_stream r p)
  with assms show ?thesis
    by (auto simp: same_unit_def doomed_def unit_defs Let_def)
next
  case (Resume m)
  with assms have "m \<noteq> n" by simp
  with assms Resume show ?thesis
    by (auto simp: same_unit_def unit_defs split: all_splits)
next
  case (Update_raises m e b)
  with assms have "m \<noteq> n" by simp
  with assms Update_raises show ?thesis
    by (auto simp: same_unit_def unit_defs split: all_splits)
next
  case (Done_callback m)
  with assms have "m \<noteq> n" by simp
  with assms Done_callback show ?thesis
    by (auto simp: same_unit_def unit_defs list_remove_def count_list_remove1_other
        split: all_splits)
qed

lemma same_unit_own:
  assumes "same_unit n s t" and "doomed s n" and "target act = Some n"
  shows "same_unit n (step act s) (step act t)"
proof (cases act)
  case (New_stream r p)
  with assms show ?thesis by simp
next
  case (Resume m)
  with assms have "m = n" by simp
  with assms Resume show ?thesis
    by (auto simp: same_unit_def doomed_def never_merges_def unit_defs split: all_splits)
next
  case (Update_raises m e b)
  with assms have "m = n" by simp
  with assms Update_raises show ?thesis
    by (auto simp: same_unit_def doomed_def never_merges_def unit_defs split: all_splits)
next
  case (Done_callback m)
  with assms have m: "m = n" by simp
  have mem: "n \<in> set (tasks s) \<longleftrightarrow> n \<in> set (tasks t)"
    using assms(1) by (simp add: same_unit_def in_set_count_list)
  show ?thesis
    using assms(1) mem unfolding Done_callback m
    by (auto simp: same_unit_def unit_defs list_remove_def count_list_remove1_same
        split: all_splits)
qed

lemma same_unit_exec:
  assumes "same_unit n s t" and "doomed s n"
  shows "same_unit n (exec acts s) (exec (filter (\<lambda>x. target x = Some n) acts) t)"
  using assms
proof (induction acts arbitrary: s t)
  case Nil
  then show ?case by simp
next
  case (Cons act acts)
  show ?case
  proof (cases "target act = Some n")
    case True
    then show ?thesis
      using Cons.IH [OF same_unit_own [OF Cons.prems True] doomed_step [OF Cons.prems(2)]]
      by simp
  next
    case False
    then show ?thesis
      using Cons.IH [OF same_unit_other [OF Cons.prems False] doomed_step [OF Cons.prems(2)]]
      by simp
  qed
qed

text \<open>The failing task on its own: it drains, fails, and its callback retires it.\<close>

lemma failing_unit_alone:
  assumes "units s n = Some \<lparr>u_reader = r, participant_identity = p, phase = Spawned\<rparr>"
    and "info_name r = Inr nm" and "pending r = map Chunk cs @ Raises e # rest"
    and "n < next_id s"
  shows "units (exec (replicate (length cs + 2) (Resume n) @ [Done_callback n]) s) n =
           Some \<lparr>u_reader = r\<lparr>pending := rest\<rparr>, participant_identity = p,
                 phase = Retired Returned\<rparr>"
    and "tasks (exec (replicate (length cs + 2) (Resume n) @ [Done_callback n]) s) =
           remove1 n (tasks s)"
proof -
  let ?t = "exec (replicate (Suc (length cs)) (Resume n)) s"
  have u: "units ?t n =
      Some \<lparr>u_reader = r\<lparr>pending := Raises e # rest\<rparr>, participant_identity = p,
            phase = Draining (concat cs)\<rparr>"
    using unit_after_chunks [OF assms(1,2,3,4), of "replicate (Suc (length cs)) (Resume n)" "length cs"]
    by (simp only: count_list_replicate_same) simp
  have t: "tasks ?t = tasks s"
    by (rule tasks_resumes)
  have split: "replicate (length cs + 2) (Resume n) @ [Done_callback n] =
      replicate (Suc (length cs)) (Resume n) @ [Resume n, Done_callback n]"
    by (simp add: replicate_append_same)
  show "units (exec (replicate (length cs + 2) (Resume n) @ [Done_callback n]) s) n =
           Some \<lparr>u_reader = r\<lparr>pending := rest\<rparr>, participant_identity = p,
                 phase = Retired Returned\<rparr>"
    unfolding split exec_append using u
    by (simp add: unit_defs list_remove_def)
  show "tasks (exec (replicate (length cs + 2) (Resume n) @ [Done_callback n]) s) =
           remove1 n (tasks s)"
    unfolding split exec_append using u t
    by (simp add: unit_defs list_remove_def remove1_idem)
qed

section \<open>Assembling the payload\<close>

text \<open>
  Claim C2. For every sequence of chunks \<open>c1..cn\<close> delivered over one reader, the
  payload the ingestion unit assembles is the concatenation \<open>c1 @ ... @ cn\<close> in delivery
  order: nothing is reordered, dropped or cut. Stated for a task that was spawned for
  a reader delivering exactly the chunks \<open>cs\<close>, under every schedule that resumes the
  task once to start it and once per chunk, with any other actions of the event loop
  in between: its buffer is then \<open>concat cs\<close>, and at the end of the stream that
  buffer is the payload that goes into the message.
\<close>

theorem assembled_payload_is_concatenation:
  assumes "units s a = Some \<lparr>u_reader = r, participant_identity = p, phase = Spawned\<rparr>"
    and "info_name r = Inr nm" and "pending r = map Chunk cs" and "a < next_id s"
    and "count_list acts (Resume a) = Suc (length cs)"
  shows "units (exec acts s) a =
           Some \<lparr>u_reader = r\<lparr>pending := []\<rparr>, participant_identity = p,
                 phase = Draining (concat cs)\<rparr>
         \<and> phase_of (step (Resume a) (exec acts s)) a =
             Some (Merging (concat cs)
                    (chat_ctx (exec acts s) @
                       [\<lparr>role = ''user'', content = [ImageContent (data_url (concat cs))]\<rparr>]))"
proof -
  have u: "units (exec acts s) a =
           Some \<lparr>u_reader = r\<lparr>pending := []\<rparr>, participant_identity = p,
                 phase = Draining (concat cs)\<rparr>"
    using unit_after_chunks [OF assms(1,2) _ assms(4,5), of cs "[]"] assms(3) by simp
  show ?thesis
    using u resume_end_of_stream(1) [OF u, of "concat cs"] by (simp add: phase_of_def)
qed

theorem assembled_payload_is_concatenation_witness:
  "units two_streams 0 = Some \<lparr>u_reader = reader_a, participant_identity = ''A'', phase = Spawned\<rparr>
   \<and> info_name reader_a = Inr ''a.png''
   \<and> pending reader_a = map Chunk [[0x89, 0x50], [0x4E, 0x47]]
   \<and> 0 < next_id two_streams
   \<and> count_list [Resume 0, Resume 1, Resume 0, Resume 1, Resume 0] (Resume 0) =
       Suc (length [[0x89, 0x50], [0x4E, 0x47 :: 8 word]])
   \<and> units (exec [Resume 0, Resume 1, Resume 0, Resume 1, Resume 0] two_streams) 0 =
       Some \<lparr>u_reader = reader_a\<lparr>pending := []\<rparr>, participant_identity = ''A'',
             phase = Draining [0x89, 0x50, 0x4E, 0x47]\<rparr>
   \<and> phase_of (exec [Resume 0, Resume 1, Resume 0, Resume 1, Resume 0, Resume 0] two_streams) 0 =
       Some (Merging [0x89, 0x50, 0x4E, 0x47]
              [\<lparr>role = ''user'', content = [ImageContent ''data:image/png;base64,iVBORw=='']\<rparr>])"
proof -
  have h1: "units two_streams 0 =
      Some \<lparr>u_reader = reader_a, participant_identity = ''A'', phase = Spawned\<rparr>"
    by (simp add: two_streams_def reader_a_def reader_b_def initial_state_def unit_defs)
  have h2: "info_name reader_a = Inr ''a.png''"
    by (simp add: reader_a_def)
  have h3: "pending reader_a = map Chunk [[0x89, 0x50], [0x4E, 0x47]]"
    by (simp add: reader_a_def)
  have h4: "0 < next_id two_streams"
    by (simp add: two_streams_def reader_a_def reader_b_def initial_state_def unit_defs)
  have h5: "count_list [Resume 0, Resume 1, Resume 0, Resume 1, Resume 0] (Resume 0)
      = Suc (length [[0x89, 0x50], [0x4E, 0x47 :: 8 word]])"
    by simp
  have ctx: "chat_ctx (exec [Resume 0, Resume 1, Resume 0, Resume 1, Resume 0] two_streams) = []"
    by (simp add: two_streams_def reader_a_def reader_b_def initial_state_def unit_defs)
  have url: "data_url [0x89, 0x50, 0x4E, 0x47] = ''data:image/png;base64,iVBORw==''"
    by (simp add: data_url_def b64_char_def b64_alphabet_def)
  from assembled_payload_is_concatenation [OF h1 h2 h3 h4 h5] h1 h2 h3 h4 h5 ctx url
  show ?thesis
    by (simp add: exec_append [of "[Resume 0, Resume 1, Resume 0, Resume 1, Resume 0]" "[Resume 0]", simplified])
qed

section \<open>The message that is appended\<close>

text \<open>
  Claim C3. For every successfully assembled payload, the message appended to the
  context has role \<^verbatim>\<open>user\<close> and a single image content item whose string is exactly
  \<^verbatim>\<open>data:image/png;base64,\<close> followed by the base64 encoding of the assembled bytes.
  Stated for a task that has drained its reader with the payload \<open>image_bytes\<close>: at
  the end of the stream it builds the current context extended by that one message
  and hands it to \<^verbatim>\<open>update_chat_ctx\<close>, and when it has been resumed once more and has
  returned, the agent's context is exactly that.
\<close>

theorem image_message_encoding:
  assumes "units s n = Some u" and "phase u = Draining image_bytes"
    and "pending (u_reader u) = []"
  shows "phase_of (step (Resume n) s) n =
           Some (Merging image_bytes
                  (chat_ctx s @
                     [\<lparr>role = ''user'',
                       content = [ImageContent (''data:image/png;base64,'' @ b64encode image_bytes)]\<rparr>]))
         \<and> chat_ctx (exec [Resume n, Resume n] s) =
             chat_ctx s @
               [\<lparr>role = ''user'',
                 content = [ImageContent (''data:image/png;base64,'' @ b64encode image_bytes)]\<rparr>]
         \<and> phase_of (exec [Resume n, Resume n] s) n = Some (Finished Returned)"
proof -
  let ?m = "\<lparr>role = ''user'', content = [ImageContent (data_url image_bytes)]\<rparr>"
  let ?s1 = "step (Resume n) s"
  have u1: "units ?s1 n = Some (u\<lparr>phase := Merging image_bytes (chat_ctx s @ [?m])\<rparr>)"
    and c1: "chat_ctx ?s1 = chat_ctx s @ [?m]"
    using resume_end_of_stream(1,2) [OF assms] by simp_all
  have "chat_ctx (step (Resume n) ?s1) = chat_ctx ?s1"
    and "units (step (Resume n) ?s1) n =
           Some (u\<lparr>phase := Merging image_bytes (chat_ctx s @ [?m]), phase := Finished Returned\<rparr>)"
    using resume_merging(1,2) [OF u1, of image_bytes "chat_ctx s @ [?m]"] by simp_all
  with u1 c1 show ?thesis
    by (simp add: phase_of_def data_url_def)
qed

theorem image_message_encoding_witness:
  "units drained_png 0 =
     Some \<lparr>u_reader = \<lparr>info_name = Inr ''a.png'', pending = []\<rparr>, participant_identity = ''A'',
           phase = Draining [0x89, 0x50, 0x4E, 0x47]\<rparr>
   \<and> chat_ctx (exec [Resume 0, Resume 0] drained_png) =
       [\<lparr>role = ''user'', content = [ImageContent ''data:image/png;base64,iVBORw=='']\<rparr>]
   \<and> phase_of (exec [Resume 0, Resume 0] drained_png) 0 = Some (Finished Returned)"
proof -
  have h1: "units drained_png 0 =
     Some \<lparr>u_reader = \<lparr>info_name = Inr ''a.png'', pending = []\<rparr>, participant_identity = ''A'',
           phase = Draining [0x89, 0x50, 0x4E, 0x47]\<rparr>"
    by (simp add: drained_png_def reader_a_def initial_state_def unit_defs)
  have ctx: "chat_ctx drained_png = []"
    by (simp add: drained_png_def reader_a_def initial_state_def unit_defs)
  have b64: "b64encode [0x89, 0x50, 0x4E, 0x47] = ''iVBORw==''"
    by (simp add: b64_char_def b64_alphabet_def)
  from image_message_encoding [OF h1, of "[0x89, 0x50, 0x4E, 0x47]"] h1 ctx b64
  show ?thesis by simp
qed

text \<open>
  Claim C9. A reader that ends at once, without a chunk and without raising, still
  makes the unit succeed: the message appended has the image content
  \<^verbatim>\<open>data:image/png;base64,\<close> with an empty payload. No check rejects the empty payload.
\<close>

theorem empty_stream_is_merged:
  assumes "units s n = Some \<lparr>u_reader = r, participant_identity = p, phase = Spawned\<rparr>"
    and "info_name r = Inr nm" and "pending r = []"
  shows "chat_ctx (exec [Resume n, Resume n, Resume n] s) =
           chat_ctx s @ [\<lparr>role = ''user'', content = [ImageContent ''data:image/png;base64,'']\<rparr>]
         \<and> phase_of (exec [Resume n, Resume n, Resume n] s) n = Some (Finished Returned)"
  using assms by (simp add: unit_defs phase_of_def add_message_def data_url_def)

theorem empty_stream_is_merged_witness:
  "units (step (New_stream reader_empty ''E'') initial_state) 0 =
     Some \<lparr>u_reader = reader_empty, participant_identity = ''E'', phase = Spawned\<rparr>
   \<and> info_name reader_empty = Inr ''e.png'' \<and> pending reader_empty = []
   \<and> chat_ctx (exec [New_stream reader_empty ''E'', Resume 0, Resume 0, Resume 0] initial_state) =
       [\<lparr>role = ''user'', content = [ImageContent ''data:image/png;base64,'']\<rparr>]
   \<and> phase_of (exec [New_stream reader_empty ''E'', Resume 0, Resume 0, Resume 0] initial_state) 0 =
       Some (Finished Returned)"
proof -
  have h1: "units (step (New_stream reader_empty ''E'') initial_state) 0 =
     Some \<lparr>u_reader = reader_empty, participant_identity = ''E'', phase = Spawned\<rparr>"
    by (simp add: reader_empty_def initial_state_def unit_defs)
  have h2: "info_name reader_empty = Inr ''e.png''" and h3: "pending reader_empty = []"
    by (simp_all add: reader_empty_def)
  have ctx: "chat_ctx (step (New_stream reader_empty ''E'') initial_state) = []"
    by (simp add: reader_empty_def initial_state_def unit_defs)
  from empty_stream_is_merged [OF h1 h2 h3] h1 h2 h3 ctx
  show ?thesis by simp
qed

section \<open>Merges of several units\<close>

text \<open>
  Claim C1. No lost updates: \<open>N\<close> concurrent merges that all succeed leave exactly
  \<open>N\<close> new image messages in the context, and no message is dropped when merges of
  different units come close together. Stated for \<open>N\<close> different tasks that were spawned
  for readers delivering the chunks \<open>cs n\<close>, under every schedule that resumes each of
  them past the end of its stream and resumes no other task, with the resumptions in
  any order and with new streams, failing updates and done-callbacks in between: the
  context has grown by exactly \<open>N\<close> messages, and they are the images of the \<open>N\<close>
  streams, one each, in the order in which the tasks found the end of their streams.
\<close>

theorem no_lost_updates:
  assumes "distinct ns"
    and "\<forall>n\<in>set ns. spawned_for s n (cs n)"
    and "\<forall>m. Resume m \<in> set acts \<longrightarrow> m \<in> set ns"
    and "\<forall>n\<in>set ns. length (cs n) + 2 \<le> count_list acts (Resume n)"
  shows "length (chat_ctx (exec acts s)) = length (chat_ctx s) + length ns
         \<and> (\<exists>ms. distinct ms \<and> set ms = set ns
                  \<and> chat_ctx (exec acts s) =
                      chat_ctx s @ map (\<lambda>n. image_message (concat (cs n))) ms)"
proof -
  from merges_in_context [OF assms(2), of acts] obtain ms suf where
    d: "distinct ms"
    and m: "set ms = {n \<in> set ns. length (cs n) + 2 \<le> count_list acts (Resume n)}"
    and c: "chat_ctx (exec acts s) = chat_ctx s @ suf"
    and only: "(\<forall>m. Resume m \<in> set acts \<longrightarrow> m \<in> set ns) \<longrightarrow>
                suf = map (\<lambda>n. image_message (concat (cs n))) ms"
    by blast
  have all: "set ms = set ns"
    using m assms(4) by auto
  have suf: "suf = map (\<lambda>n. image_message (concat (cs n))) ms"
    using only assms(3) by blast
  have "length ms = length ns"
    using distinct_card [OF d] distinct_card [OF assms(1)] all by simp
  with c suf d all show ?thesis by auto
qed

theorem no_lost_updates_witness:
  "distinct [0, 1 :: nat]
   \<and> spawned_for two_streams 0 [[0x89, 0x50], [0x4E, 0x47]]
   \<and> spawned_for two_streams 1 [[1, 2, 3]]
   \<and> length [[0x89, 0x50], [0x4E, 0x47 :: 8 word]] + 2 \<le> count_list overlapping_schedule (Resume 0)
   \<and> length [[1, 2, 3 :: 8 word]] + 2 \<le> count_list overlapping_schedule (Resume 1)
   \<and> chat_ctx two_streams = []
   \<and> length (chat_ctx (exec overlapping_schedule two_streams)) = 2
   \<and> chat_ctx (exec overlapping_schedule two_streams) =
       [image_message [0x89, 0x50, 0x4E, 0x47], image_message [1, 2, 3]]
   \<and> phase_of (exec overlapping_schedule two_streams) 0 = Some (Finished Returned)
   \<and> phase_of (exec overlapping_schedule two_streams) 1 = Some (Finished Returned)"
proof -
  let ?cs = "\<lambda>n :: nat. if n = 0 then [[0x89, 0x50], [0x4E, 0x47]] else [[1, 2, 3 :: 8 word]]"
  have h1: "distinct [0, 1 :: nat]" by simp
  have s0: "spawned_for two_streams 0 [[0x89, 0x50], [0x4E, 0x47]]"
    and s1: "spawned_for two_streams 1 [[1, 2, 3]]"
    by (simp_all add: spawned_for_def two_streams_def reader_a_def reader_b_def
        initial_state_def unit_defs)
  have h2: "\<forall>n\<in>set [0, 1 :: nat]. spawned_for two_streams n (?cs n)"
    using s0 s1 by simp
  have h3: "\<forall>m. Resume m \<in> set overlapping_schedule \<longrightarrow> m \<in> set [0, 1 :: nat]"
    by (auto simp: overlapping_schedule_def)
  have c0: "length [[0x89, 0x50], [0x4E, 0x47 :: 8 word]] + 2 \<le> count_list overlapping_schedule (Resume 0)"
    and c1: "length [[1, 2, 3 :: 8 word]] + 2 \<le> count_list overlapping_schedule (Resume 1)"
    by (simp_all add: overlapping_schedule_def)
  have h4: "\<forall>n\<in>set [0, 1 :: nat]. length (?cs n) + 2 \<le> count_list overlapping_schedule (Resume n)"
    using c0 c1 by simp
  have ctx0: "chat_ctx two_streams = []"
    by (simp add: two_streams_def initial_state_def unit_defs)
  have run: "chat_ctx (exec overlapping_schedule two_streams) =
       [image_message [0x89, 0x50, 0x4E, 0x47], image_message [1, 2, 3]]"
    "phase_of (exec overlapping_schedule two_streams) 0 = Some (Finished Returned)"
    "phase_of (exec overlapping_schedule two_streams) 1 = Some (Finished Returned)"
    by (simp_all add: overlapping_schedule_def two_streams_def reader_a_def reader_b_def
        initial_state_def unit_defs add_message_def image_message_def phase_of_def)
  from no_lost_updates [OF h1 h2 h3 h4] h1 s0 s1 c0 c1 ctx0 run
  show ?thesis by simp
qed



section \<open>Failures\<close>

text \<open>
  Claim C4. A unit whose reader raises mid-transfer changes nothing in the shared
  context, and its handle leaves the task list. Stated for a task spawned for a reader
  that delivers the chunks \<open>cs\<close> and then raises, under every schedule \<open>acts\<close>: the
  context at the end is the context the same schedule produces without the actions
  of this task (run alone, that is the context from before the task started); and
  when the schedule starts the task, resumes it for every chunk and for the error and
  then runs its done-callback, the task is retired, having returned normally, and its
  handle is not in the task list.
\<close>

theorem failed_unit_leaves_context:
  assumes "units s n = Some \<lparr>u_reader = r, participant_identity = p, phase = Spawned\<rparr>"
    and "info_name r = Inr nm" and "pending r = map Chunk cs @ Raises e # rest"
    and "n < next_id s" and "count_list (tasks s) n = 1"
  shows "chat_ctx (exec acts s) = chat_ctx (exec (filter (\<lambda>x. target x \<noteq> Some n) acts) s)
         \<and> (filter (\<lambda>x. target x = Some n) acts =
               replicate (length cs + 2) (Resume n) @ [Done_callback n] \<longrightarrow>
             phase_of (exec acts s) n = Some (Retired Returned)
             \<and> n \<notin> set (tasks (exec acts s)))"
proof -
  have d: "doomed s n"
    using assms(1,3,4) by (simp add: doomed_def never_merges_def raises_ahead_chunks)
  have "same_but n s s"
    by (simp add: same_but_def)
  from same_but_exec [OF this d, of acts]
  have ctx: "chat_ctx (exec acts s) = chat_ctx (exec (filter (\<lambda>x. target x \<noteq> Some n) acts) s)"
    by (simp add: same_but_def)
  have retire: "phase_of (exec acts s) n = Some (Retired Returned) \<and> n \<notin> set (tasks (exec acts s))"
    if own: "filter (\<lambda>x. target x = Some n) acts =
               replicate (length cs + 2) (Resume n) @ [Done_callback n]"
  proof -
    have "same_unit n s s"
      using assms(4) by (simp add: same_unit_def)
    from same_unit_exec [OF this d, of acts]
    have su: "same_unit n (exec acts s)
        (exec (replicate (length cs + 2) (Resume n) @ [Done_callback n]) s)"
      unfolding own .
    have "count_list (tasks (exec acts s)) n = count_list (remove1 n (tasks s)) n"
      using su failing_unit_alone(2) [OF assms(1-4)] by (simp add: same_unit_def)
    then have "count_list (tasks (exec acts s)) n = 0"
      using assms(5) by (simp add: count_list_remove1_same)
    then have "n \<notin> set (tasks (exec acts s))"
      by (simp add: in_set_count_list)
    moreover have "phase_of (exec acts s) n = Some (Retired Returned)"
      using su failing_unit_alone(1) [OF assms(1-4)] by (simp add: same_unit_def phase_of_def)
    ultimately show ?thesis by simp
  qed
  from ctx retire show ?thesis by blast
qed

theorem failed_unit_leaves_context_witness:
  "units failing_start 1 =
     Some \<lparr>u_reader = reader_failing, participant_identity = ''C'', phase = Spawned\<rparr>
   \<and> info_name reader_failing = Inr ''c.png''
   \<and> pending reader_failing = map Chunk [[1]] @ Raises (Exception ''stream closed'') # []
   \<and> 1 < next_id failing_start
   \<and> count_list (tasks failing_start) 1 = 1
   \<and> filter (\<lambda>x. target x = Some 1) failing_schedule =
       replicate (length [[1 :: 8 word]] + 2) (Resume 1) @ [Done_callback 1]
   \<and> chat_ctx (exec failing_schedule failing_start) =
       chat_ctx (exec [Resume 0, Resume 0, Resume 0, Resume 0, Resume 0] failing_start)
   \<and> chat_ctx (exec failing_schedule failing_start) = [image_message [0x89, 0x50, 0x4E, 0x47]]
   \<and> phase_of (exec failing_schedule failing_start) 1 = Some (Retired Returned)
   \<and> tasks (exec failing_schedule failing_start) = [0]
   \<and> chat_ctx (exec [Resume 1, Resume 1, Resume 1, Done_callback 1] failing_start) =
       chat_ctx failing_start"
proof -
  have h1: "units failing_start 1 =
     Some \<lparr>u_reader = reader_failing, participant_identity = ''C'', phase = Spawned\<rparr>"
    by (simp add: failing_start_def failing_schedule_def reader_a_def reader_failing_def
        initial_state_def unit_defs)
  have h2: "info_name reader_failing = Inr ''c.png''"
    by (simp add: reader_failing_def)
  have h3: "pending reader_failing = map Chunk [[1]] @ Raises (Exception ''stream closed'') # []"
    by (simp add: reader_failing_def)
  have h4: "1 < next_id failing_start"
    by (simp add: failing_start_def failing_schedule_def reader_a_def reader_failing_def
        initial_state_def unit_defs)
  have h5: "count_list (tasks failing_start) 1 = 1"
    by (simp add: failing_start_def failing_schedule_def reader_a_def reader_failing_def
        initial_state_def unit_defs)
  have h6: "filter (\<lambda>x. target x = Some 1) failing_schedule =
       replicate (length [[1 :: 8 word]] + 2) (Resume 1) @ [Done_callback 1]"
    by (simp add: failing_schedule_def numeral_3_eq_3)
  have f: "filter (\<lambda>x. target x \<noteq> Some 1) failing_schedule =
      [Resume 0, Resume 0, Resume 0, Resume 0, Resume 0]"
    by (simp add: failing_schedule_def)
  have c: "chat_ctx (exec [Resume 0, Resume 0, Resume 0, Resume 0, Resume 0] failing_start) =
      [image_message [0x89, 0x50, 0x4E, 0x47]]"
    by (simp add: failing_start_def failing_schedule_def reader_a_def reader_failing_def
        initial_state_def unit_defs image_message_def add_message_def)
  have t: "tasks (exec failing_schedule failing_start) = [0]"
    by (simp add: failing_start_def failing_schedule_def reader_a_def reader_failing_def
        initial_state_def unit_defs list_remove_def)
  have alone: "filter (\<lambda>x. target x \<noteq> Some 1) [Resume 1, Resume 1, Resume 1, Done_callback 1] = []"
    by simp
  from failed_unit_leaves_context [OF h1 h2 h3 h4 h5, of failing_schedule]
    failed_unit_leaves_context [OF h1 h2 h3 h4 h5, of "[Resume 1, Resume 1, Resume 1, Done_callback 1]"]
    h1 h2 h3 h4 h5 h6 f c t
  show ?thesis unfolding alone by simp
qed

text \<open>
  Claim C5. An error raised while the unit assembles the chunks or merges the image
  is caught inside the unit and logged; it does not leave the task, and it reaches
  no other unit and not the task list; the failed unit retires like any other.
  Stated for the two places where the unit waits inside its \<^verbatim>\<open>try\<close>: the reader raises
  at the next chunk, or \<^verbatim>\<open>update_chat_ctx\<close> raises. In both the task returns normally,
  the error is the new last log entry, every other task and the task list are as
  before, and the done-callback then retires the task and removes its handle.
\<close>

theorem unit_errors_are_contained:
  assumes "units s n = Some u"
    and "(phase u = Draining buf \<and> pending (u_reader u) = Raises e # rest \<and> act = Resume n)
         \<or> (phase u = Merging buf ctx \<and> act = Update_raises n e replaced)"
  shows "phase_of (step act s) n = Some (Finished Returned)
         \<and> logged (step act s) = logged s @ [Error e]
         \<and> tasks (step act s) = tasks s
         \<and> (\<forall>m. m \<noteq> n \<longrightarrow> units (step act s) m = units s m)
         \<and> phase_of (step (Done_callback n) (step act s)) n = Some (Retired Returned)
         \<and> tasks (step (Done_callback n) (step act s)) = remove1 n (tasks s)"
  using assms
  by (auto simp: unit_defs phase_of_def list_remove_def remove1_idem)

theorem unit_errors_are_contained_witness:
  "units mid_transfer 0 =
     Some \<lparr>u_reader = \<lparr>info_name = Inr ''c.png'', pending = [Raises (Exception ''stream closed'')]\<rparr>,
           participant_identity = ''C'', phase = Draining [1]\<rparr>
   \<and> phase_of (step (Resume 0) mid_transfer) 0 = Some (Finished Returned)
   \<and> logged (step (Resume 0) mid_transfer) =
       [Info ''C'' ''c.png'', Error (Exception ''stream closed'')]
   \<and> phase_of (exec [Resume 0, Done_callback 0] mid_transfer) 0 = Some (Retired Returned)
   \<and> tasks (exec [Resume 0, Done_callback 0] mid_transfer) = []
   \<and> phase_of about_to_swap 0 = Some (Merging [] [image_message []])
   \<and> phase_of (step (Update_raises 0 (Exception ''rejected'') False) about_to_swap) 0 =
       Some (Finished Returned)
   \<and> logged (step (Update_raises 0 (Exception ''rejected'') False) about_to_swap) =
       [Info ''E'' ''e.png'', Error (Exception ''rejected'')]
   \<and> tasks (exec [Update_raises 0 (Exception ''rejected'') False, Done_callback 0] about_to_swap) = []"
proof -
  let ?u = "\<lparr>u_reader = \<lparr>info_name = Inr ''c.png'', pending = [Raises (Exception ''stream closed'')]\<rparr>,
           participant_identity = ''C'', phase = Draining [1]\<rparr>"
  let ?v = "\<lparr>u_reader = reader_empty, participant_identity = ''E'',
           phase = Merging [] [image_message []]\<rparr>"
  have h1: "units mid_transfer 0 = Some ?u"
    by (simp add: mid_transfer_def about_to_swap_def reader_failing_def reader_empty_def
        initial_state_def unit_defs)
  have h2: "(phase ?u = Draining [1] \<and>
        pending (u_reader ?u) = Raises (Exception ''stream closed'') # [] \<and> Resume 0 = Resume 0)
      \<or> (phase ?u = Merging [1] [] \<and>
          Resume 0 = Update_raises 0 (Exception ''stream closed'') False)"
    by simp
  have l1: "logged mid_transfer = [Info ''C'' ''c.png'']" and t1: "tasks mid_transfer = [0]"
    by (simp_all add: mid_transfer_def about_to_swap_def reader_failing_def reader_empty_def
        initial_state_def unit_defs)
  have k1: "units about_to_swap 0 = Some ?v"
    by (simp add: mid_transfer_def about_to_swap_def reader_failing_def reader_empty_def
        initial_state_def unit_defs add_message_def image_message_def)
  have k2: "(phase ?v = Draining [] \<and>
        pending (u_reader ?v) = Raises (Exception ''rejected'') # [] \<and>
        Update_raises 0 (Exception ''rejected'') False = Resume 0)
      \<or> (phase ?v = Merging [] [image_message []] \<and>
          Update_raises 0 (Exception ''rejected'') False =
            Update_raises 0 (Exception ''rejected'') False)"
    by simp
  have l2: "logged about_to_swap = [Info ''E'' ''e.png'']" and t2: "tasks about_to_swap = [0]"
    by (simp_all add: mid_transfer_def about_to_swap_def reader_failing_def reader_empty_def
        initial_state_def unit_defs)
  from unit_errors_are_contained [OF h1 h2] unit_errors_are_contained [OF k1 k2]
    h1 k1 l1 t1 l2 t2
  show ?thesis by (simp add: phase_of_def)
qed

text \<open>
  Claim C10. Line 140 reads \<^verbatim>\<open>reader.info.name\<close> before the \<^verbatim>\<open>try\<close> begins. When that
  access raises, the exception is not caught and not logged by the unit: it leaves
  the coroutine, and the task ends with that exception.
\<close>

theorem metadata_error_escapes:
  assumes "units s n = Some u" and "phase u = Spawned" and "info_name (u_reader u) = Inl e"
  shows "phase_of (step (Resume n) s) n = Some (Finished (Raised e))
         \<and> logged (step (Resume n) s) = logged s
         \<and> chat_ctx (step (Resume n) s) = chat_ctx s"
  using assms by (simp add: unit_defs phase_of_def)

theorem metadata_error_escapes_witness:
  "units (step (New_stream reader_nameless ''N'') initial_state) 0 =
     Some \<lparr>u_reader = reader_nameless, participant_identity = ''N'', phase = Spawned\<rparr>
   \<and> info_name reader_nameless = Inl (Exception ''no stream info'')
   \<and> phase_of (exec [New_stream reader_nameless ''N'', Resume 0] initial_state) 0 =
       Some (Finished (Raised (Exception ''no stream info'')))
   \<and> logged (exec [New_stream reader_nameless ''N'', Resume 0] initial_state) = []"
proof -
  let ?u = "\<lparr>u_reader = reader_nameless, participant_identity = ''N'', phase = Spawned\<rparr>"
  have h1: "units (step (New_stream reader_nameless ''N'') initial_state) 0 = Some ?u"
    by (simp add: reader_nameless_def initial_state_def unit_defs)
  have h2: "phase ?u = Spawned" by simp
  have h3: "info_name (u_reader ?u) = Inl (Exception ''no stream info'')"
    by (simp add: reader_nameless_def)
  have lg: "logged (step (New_stream reader_nameless ''N'') initial_state) = []"
    by (simp add: reader_nameless_def initial_state_def unit_defs)
  from metadata_error_escapes [OF h1 h2 h3] h1 h3 lg
  show ?thesis by simp
qed

section \<open>The stream handler\<close>

text \<open>
  Claim C6. The stream handler does not wait for a transfer: for every notification it
  creates the task, appends its handle to the task list and returns, so that streams
  are accepted while earlier units are in flight. Stated for any number of
  notifications in a row, from any state: every one of them gets a task that has not
  started (its reader is untouched), the handles are appended in order, the tasks
  that existed before are where they were, and neither the context nor the log has
  changed.
\<close>

theorem handler_never_waits_for_transfer:
  "tasks (exec (map (\<lambda>(r, p). New_stream r p) streams) s) =
     tasks s @ [next_id s ..< next_id s + length streams]
   \<and> (\<forall>i < length streams.
        units (exec (map (\<lambda>(r, p). New_stream r p) streams) s) (next_id s + i) =
          Some \<lparr>u_reader = fst (streams ! i), participant_identity = snd (streams ! i),
                phase = Spawned\<rparr>)
   \<and> (\<forall>m < next_id s. units (exec (map (\<lambda>(r, p). New_stream r p) streams) s) m = units s m)
   \<and> next_id (exec (map (\<lambda>(r, p). New_stream r p) streams) s) = next_id s + length streams
   \<and> chat_ctx (exec (map (\<lambda>(r, p). New_stream r p) streams) s) = chat_ctx s
   \<and> logged (exec (map (\<lambda>(r, p). New_stream r p) streams) s) = logged s"
proof (induction streams arbitrary: s)
  case Nil
  show ?case by simp
next
  case (Cons x streams)
  obtain r p where x: "x = (r, p)" by (cases x)
  let ?s1 = "step (New_stream r p) s"
  let ?f = "exec (map (\<lambda>(r, p). New_stream r p) streams) ?s1"
  have IH: "tasks ?f = tasks ?s1 @ [next_id ?s1 ..< next_id ?s1 + length streams]"
    "\<forall>i < length streams. units ?f (next_id ?s1 + i) =
          Some \<lparr>u_reader = fst (streams ! i), participant_identity = snd (streams ! i),
                phase = Spawned\<rparr>"
    "\<forall>m < next_id ?s1. units ?f m = units ?s1 m"
    "next_id ?f = next_id ?s1 + length streams"
    "chat_ctx ?f = chat_ctx ?s1" "logged ?f = logged ?s1"
    using Cons.IH [of ?s1] by simp_all
  have e: "exec (map (\<lambda>(r, p). New_stream r p) (x # streams)) s = ?f"
    by (simp add: x)
  have upt: "[next_id s ..< next_id s + length (x # streams)] =
      next_id s # [Suc (next_id s) ..< Suc (next_id s) + length streams]"
    by (simp add: upt_conv_Cons del: upt_Suc)
  have t: "tasks ?f = tasks s @ [next_id s ..< next_id s + length (x # streams)]"
    unfolding upt using IH(1) by (simp add: handler_facts)
  have old: "\<forall>m < next_id s. units ?f m = units s m"
    using IH(3) by (simp add: handler_facts)
  have new: "\<forall>i < length (x # streams). units ?f (next_id s + i) =
          Some \<lparr>u_reader = fst ((x # streams) ! i), participant_identity = snd ((x # streams) ! i),
                phase = Spawned\<rparr>"
  proof (intro allI impI)
    fix i assume i: "i < length (x # streams)"
    show "units ?f (next_id s + i) =
          Some \<lparr>u_reader = fst ((x # streams) ! i), participant_identity = snd ((x # streams) ! i),
                phase = Spawned\<rparr>"
    proof (cases i)
      case 0
      then show ?thesis using IH(3) by (simp add: x handler_facts)
    next
      case (Suc j)
      then show ?thesis using IH(2) i by (simp add: handler_facts)
    qed
  qed
  from t old new IH(4-6) show ?case
    unfolding e by (simp add: handler_facts)
qed

theorem handler_never_waits_for_transfer_witness:
  "phase_of mid_transfer 0 = Some (Draining [1])
   \<and> next_id mid_transfer = 1
   \<and> tasks (exec [New_stream reader_a ''A'', New_stream reader_b ''B''] mid_transfer) = [0, 1, 2]
   \<and> units (exec [New_stream reader_a ''A'', New_stream reader_b ''B''] mid_transfer) 1 =
       Some \<lparr>u_reader = reader_a, participant_identity = ''A'', phase = Spawned\<rparr>
   \<and> units (exec [New_stream reader_a ''A'', New_stream reader_b ''B''] mid_transfer) 2 =
       Some \<lparr>u_reader = reader_b, participant_identity = ''B'', phase = Spawned\<rparr>
   \<and> phase_of (exec [New_stream reader_a ''A'', New_stream reader_b ''B''] mid_transfer) 0 =
       Some (Draining [1])
   \<and> chat_ctx (exec [New_stream reader_a ''A'', New_stream reader_b ''B''] mid_transfer) = []"
proof -
  let ?f = "exec [New_stream reader_a ''A'', New_stream reader_b ''B''] mid_transfer"
  note T = handler_never_waits_for_transfer [of "[(reader_a, ''A''), (reader_b, ''B'')]" mid_transfer]
  have n: "next_id mid_transfer = 1" and t: "tasks mid_transfer = [0]"
    and c: "chat_ctx mid_transfer = []"
    and p: "phase_of mid_transfer 0 = Some (Draining [1])"
    by (simp_all add: mid_transfer_def reader_failing_def initial_state_def unit_defs phase_of_def)
  have e: "exec (map (\<lambda>(r, p). New_stream r p) [(reader_a, ''A''), (reader_b, ''B'')]) mid_transfer = ?f"
    by simp
  from T have tasks: "tasks ?f = tasks mid_transfer @ [next_id mid_transfer ..< next_id mid_transfer + 2]"
    and new: "\<forall>i < 2. units ?f (next_id mid_transfer + i) =
          Some \<lparr>u_reader = fst ([(reader_a, ''A''), (reader_b, ''B'')] ! i),
                participant_identity = snd ([(reader_a, ''A''), (reader_b, ''B'')] ! i),
                phase = Spawned\<rparr>"
    and old: "\<forall>m < next_id mid_transfer. units ?f m = units mid_transfer m"
    and ctx: "chat_ctx ?f = chat_ctx mid_transfer"
    unfolding e by simp_all
  have "tasks ?f = [0, 1, 2]"
    using tasks by (simp add: n t upt_rec)
  moreover have "units ?f 1 = Some \<lparr>u_reader = reader_a, participant_identity = ''A'', phase = Spawned\<rparr>"
    using new [rule_format, of 0] by (simp add: n)
  moreover have "units ?f 2 = Some \<lparr>u_reader = reader_b, participant_identity = ''B'', phase = Spawned\<rparr>"
    using new [rule_format, of 1] by (simp add: n numeral_2_eq_2)
  moreover have "phase_of ?f 0 = Some (Draining [1])"
    using old [rule_format, of 0] p by (simp add: n phase_of_def)
  ultimately show ?thesis
    using n p ctx c by simp
qed

end
